theory Spec2Isabelle
  imports Complex_Main
begin

section \<open>JavaScript values and promise states\<close>

text \<open>
  The exercises of this repository are JavaScript scripts. The values they pass through
  promises are numbers, strings and arrays; a handler that only logs returns
  \<open>undefined\<close>. The numbers of the scripts are small integers, modelled as \<open>int\<close>,
  with \<open>NaN\<close> for the result of arithmetic on something that is not a number. No
  script resolves a promise with another promise, so a value is never a promise.
\<close>

datatype val = Undefined | NaN | Num int | Str string | Arr "val list"

text \<open>
  The diagram at the head of \<^verbatim>\<open>level90/home/js.js\<close>: a promise is PENDING and then
  either FULFILLED (by \<open>resolve\<close>) or REJECTED (by \<open>reject\<close>). A promise has one
  result slot: the fulfilled state carries the value, the rejected state the error.
\<close>

datatype pstate = Pending | Fulfilled val | Rejected val

text \<open>
  The two functions that the \<open>Promise\<close> constructor hands to its executor. Both settle
  a pending promise and do nothing on a settled one.
\<close>

definition resolve :: "val \<Rightarrow> pstate \<Rightarrow> pstate" where
  "resolve v st = (case st of Pending \<Rightarrow> Fulfilled v | _ \<Rightarrow> st)"

definition reject :: "val \<Rightarrow> pstate \<Rightarrow> pstate" where
  "reject e st = (case st of Pending \<Rightarrow> Rejected e | _ \<Rightarrow> st)"



datatype js_error = TypeError

section \<open>level90/home/js.js: the conditional promise\<close>

definition students :: "string list" where
  "students = [''nika'', ''nika'', ''gio'', ''alexi'']"

text \<open>
  The timer callback of \<open>MyPromise\<close>. \<open>rnd\<close> is the number \<open>Math.random()\<close> returned,
  a floating-point number in \<open>[0, 1)\<close>; its product with the length 4 is exact, so
  \<open>Math.floor\<close> of it is the floor of the real product.
  Reading \<open>students[randomIndex]\<close> out of range gives \<open>undefined\<close> in JavaScript, and
  \<open>undefined.length\<close> throws a TypeError that leaves the promise as it was.
\<close>

definition MyPromise_callback :: "real \<Rightarrow> pstate \<Rightarrow> js_error + pstate" where
  "MyPromise_callback rnd st =
     (let randomIndex = \<lfloor>rnd * real (length students)\<rfloor> in
      if 0 \<le> randomIndex \<and> randomIndex < int (length students) then
        (let randomName = students ! nat randomIndex in
         if length randomName > 5 then Inr (resolve (Str ''success'') st)
         else Inr (reject (Str ''failure'') st))
      else Inl TypeError)"

text \<open>
  The state of \<open>MyPromise\<close> at \<open>t\<close> milliseconds after the script ran: the executor
  only arms a timer of 5000 ms, whose callback settles the promise.
\<close>

definition MyPromise :: "real \<Rightarrow> nat \<Rightarrow> pstate" where
  "MyPromise rnd t =
     (if t < 5000 then Pending
      else (case MyPromise_callback rnd Pending of Inr st \<Rightarrow> st | Inl _ \<Rightarrow> Pending))"

section \<open>The promise runtime: reactions and the job queue\<close>

text \<open>
  \<open>Promise\<close>, \<open>then\<close> and \<open>catch\<close> are built-ins of the language, not code of the
  repository. This section gives what they do in the scripts of
  \<^verbatim>\<open>level91/work/js.js\<close>, after the promise operations of the ECMAScript
  specification (reactions stored on a pending promise, one job per reaction when the
  promise settles, jobs run in queue order). The
  callbacks of the scripts are of four shapes: an arrow function that returns an
  expression of its argument, an arrow function that logs its argument, and the two
  defaults that \<open>then\<close> substitutes for a missing callback (pass the value on, throw
  the error on).
\<close>

datatype completion = Return val | Throw val

datatype handler = Arrow "val \<Rightarrow> val" | ConsoleLog | Identity | Thrower

fun call_handler :: "handler \<Rightarrow> val \<Rightarrow> val list \<Rightarrow> completion \<times> val list" where
  "call_handler (Arrow f) x out = (Return (f x), out)"
| "call_handler ConsoleLog x out = (Return Undefined, out @ [x])"
| "call_handler Identity x out = (Return x, out)"
| "call_handler Thrower x out = (Throw x, out)"

type_synonym pid = nat

text \<open>
  A reaction is what one call of \<open>then\<close> leaves on a pending promise: the two
  callbacks and the promise that \<open>then\<close> returned. A job is a callback due to run with
  its argument, and the promise to settle with what the callback returns or throws.
\<close>

type_synonym reaction = "handler \<times> handler \<times> pid"
type_synonym job = "handler \<times> val \<times> pid"

record promise =
  state :: pstate
  reactions :: "reaction list"

text \<open>
  The runtime: the promises created so far, the queue of jobs (microtasks), what
  \<open>console.log\<close> has printed, and the jobs run so far (every callback invocation, with
  its argument and the promise of the \<open>then\<close> call that registered it).
\<close>

record runtime =
  heap :: "promise list"
  jobs :: "job list"
  console :: "val list"
  calls :: "job list"

definition start :: runtime where
  "start = \<lparr>heap = [], jobs = [], console = [], calls = []\<rparr>"

definition new_promise :: "runtime \<Rightarrow> pid \<times> runtime" where
  "new_promise rt =
     (length (heap rt), rt\<lparr>heap := heap rt @ [\<lparr>state = Pending, reactions = []\<rparr>]\<rparr>)"

fun jobs_for :: "pstate \<Rightarrow> reaction list \<Rightarrow> job list" where
  "jobs_for Pending rs = []"
| "jobs_for (Fulfilled v) rs = map (\<lambda>(onFulfilled, onRejected, d). (onFulfilled, v, d)) rs"
| "jobs_for (Rejected e) rs = map (\<lambda>(onFulfilled, onRejected, d). (onRejected, e, d)) rs"

text \<open>
  Settling promise \<open>p\<close>: a pending promise takes the new state and its reactions become
  jobs, in the order of their registration; a settled promise is left alone.
\<close>

definition settle_promise :: "pid \<Rightarrow> (pstate \<Rightarrow> pstate) \<Rightarrow> runtime \<Rightarrow> runtime" where
  "settle_promise p f rt =
     (if p < length (heap rt) \<and> state (heap rt ! p) = Pending then
        (let st = f Pending in
         rt\<lparr>heap := (heap rt)[p := \<lparr>state = st,
                                     reactions = (if st = Pending then reactions (heap rt ! p) else [])\<rparr>],
            jobs := jobs rt @ jobs_for st (reactions (heap rt ! p))\<rparr>)
      else rt)"

definition resolve_promise :: "pid \<Rightarrow> val \<Rightarrow> runtime \<Rightarrow> runtime" where
  "resolve_promise p v rt = settle_promise p (resolve v) rt"

definition reject_promise :: "pid \<Rightarrow> val \<Rightarrow> runtime \<Rightarrow> runtime" where
  "reject_promise p e rt = settle_promise p (reject e) rt"

text \<open>
  \<open>p.then(onFulfilled, onRejected)\<close>: returns a new promise. On a pending \<open>p\<close> the
  reaction is stored; on a settled \<open>p\<close> the job for the matching callback is queued
  with the stored value or error. No callback runs inside the call.
\<close>

definition then_promise :: "pid \<Rightarrow> handler \<Rightarrow> handler \<Rightarrow> runtime \<Rightarrow> pid \<times> runtime" where
  "then_promise p onFulfilled onRejected rt =
     (let (d, rt1) = new_promise rt in
      if p < length (heap rt) then
        (case state (heap rt ! p) of
           Pending \<Rightarrow>
             (d, rt1\<lparr>heap := (heap rt1)[p := (heap rt ! p)
                        \<lparr>reactions := reactions (heap rt ! p) @ [(onFulfilled, onRejected, d)]\<rparr>]\<rparr>)
         | Fulfilled v \<Rightarrow> (d, rt1\<lparr>jobs := jobs rt1 @ [(onFulfilled, v, d)]\<rparr>)
         | Rejected e \<Rightarrow> (d, rt1\<lparr>jobs := jobs rt1 @ [(onRejected, e, d)]\<rparr>))
      else (d, rt1))"

definition catch_promise :: "pid \<Rightarrow> handler \<Rightarrow> runtime \<Rightarrow> pid \<times> runtime" where
  "catch_promise p onRejected rt = then_promise p Identity onRejected rt"

text \<open>
  Running the first job of the queue: the callback is called once with its argument, and
  the promise that \<open>then\<close> returned is resolved with what it returns, or rejected with
  what it throws.
\<close>

definition run_job :: "runtime \<Rightarrow> runtime" where
  "run_job rt =
     (case jobs rt of
        [] \<Rightarrow> rt
      | (h, x, d) # js \<Rightarrow>
          (let (c, out) = call_handler h x (console rt);
               rt1 = rt\<lparr>jobs := js, console := out, calls := calls rt @ [(h, x, d)]\<rparr>
           in case c of
                Return r \<Rightarrow> resolve_promise d r rt1
              | Throw e \<Rightarrow> reject_promise d e rt1))"

text \<open>
  The job queue is emptied before the next timer runs. Every job run removes one job and
  turns the reactions of at most one promise into jobs, so the number of jobs and
  reactions bounds the number of runs.
\<close>

definition pending_work :: "runtime \<Rightarrow> nat" where
  "pending_work rt = length (jobs rt) + sum_list (map (\<lambda>pr. length (reactions pr)) (heap rt))"

definition drain :: "runtime \<Rightarrow> runtime" where
  "drain rt = (run_job ^^ pending_work rt) rt"

section \<open>level91/work/js.js\<close>

text \<open>
  The arrow functions \<open>num => num + 5\<close> and \<open>num => num * 2\<close> on a number. On an
  operand that is not a number JavaScript coerces (a string operand of \<open>+\<close> is
  concatenated); the script only passes the number 5 and its successors, and the model
  answers \<open>NaN\<close> elsewhere, which is not what the code does there.
\<close>

definition plus5 :: "val \<Rightarrow> val" where
  "plus5 num = (case num of Num n \<Rightarrow> Num (n + 5) | _ \<Rightarrow> NaN)"

definition times2 :: "val \<Rightarrow> val" where
  "times2 num = (case num of Num n \<Rightarrow> Num (n * 2) | _ \<Rightarrow> NaN)"

text \<open>
  \<open>chainPromise\<close>: the executor resolves with 5 at once, then three \<open>then\<close> calls are
  made, the first on the settled promise, each next one on the promise that the call
  before returned. The job queue runs when the whole file has run (\<open>level91\<close> below).
\<close>

definition chainPromise :: "runtime \<Rightarrow> pid \<times> runtime" where
  "chainPromise rt = (let (p, rt1) = new_promise rt in (p, resolve_promise p (Num 5) rt1))"

definition chainPromise_script :: "runtime \<Rightarrow> runtime" where
  "chainPromise_script rt =
     (let (p, rt1) = chainPromise rt;
          (q1, rt2) = then_promise p (Arrow plus5) Thrower rt1;
          (q2, rt3) = then_promise q1 (Arrow times2) Thrower rt2;
          (q3, rt4) = then_promise q2 ConsoleLog Thrower rt3
      in rt4)"

text \<open>
  \<open>myPromise\<close>: the executor arms a timer of 1000 ms; \<open>then\<close> and \<open>catch\<close> are
  registered while the promise is pending. \<open>myPromise_timer\<close> is the timer's callback.
\<close>

definition myPromise_script :: "runtime \<Rightarrow> pid \<times> runtime" where
  "myPromise_script rt =
     (let (p, rt1) = new_promise rt;
          (q1, rt2) = then_promise p ConsoleLog Thrower rt1;
          (q2, rt3) = catch_promise q1 ConsoleLog rt2
      in (p, rt3))"

definition myPromise_timer :: "pid \<Rightarrow> runtime \<Rightarrow> runtime" where
  "myPromise_timer p rt = resolve_promise p (Str ''Data loaded successfully!'') rt"

definition conditionalPromise_script :: "runtime \<Rightarrow> runtime" where
  "conditionalPromise_script rt =
     (let (p, rt1) = new_promise rt;
          success = True;
          rt2 = (if success then resolve_promise p (Str ''Operation successful!'') rt1
                 else reject_promise p (Str ''Operation failed!'') rt1);
          (q, rt3) = then_promise p ConsoleLog ConsoleLog rt2
      in rt3)"

text \<open>
  The whole file: the three scripts run in order, the job queue runs when the script
  ends, and the timer of \<open>myPromise\<close> fires 1000 ms later.
\<close>

definition level91 :: "nat \<Rightarrow> runtime" where
  "level91 t =
     (let (p, rt1) = myPromise_script start;
          rt2 = drain (conditionalPromise_script (chainPromise_script rt1))
      in if t < 1000 then rt2 else drain (myPromise_timer p rt2))"




fun changes :: "pstate list \<Rightarrow> nat" where
  "changes (x # y # zs) = (if x \<noteq> y then 1 else 0) + changes (y # zs)"
| "changes _ = 0"


section \<open>Promise.all\<close>

text \<open>
  \<open>Promise.all\<close> as \<^verbatim>\<open>level92/home/js.js\<close> calls it: a built-in of the language,
  given here by the algorithm of the ECMAScript specification. The function and the
  closures it creates share the result array, one already-called flag per input, the count of inputs
  whose value is still missing, and the promise that the call returns.
\<close>

record all_record =
  elements :: "val list"
  called :: "bool list"
  remaining :: nat
  result :: pstate

text \<open>
  The closure registered as \<open>onFulfilled\<close> of input \<open>i\<close> stores the value at index \<open>i\<close>
  and resolves the result with the array once no value is missing; the \<open>onRejected\<close> of
  every input is the \<open>reject\<close> function of the result.
\<close>

definition resolveElement :: "nat \<Rightarrow> val \<Rightarrow> all_record \<Rightarrow> all_record" where
  "resolveElement i x a =
     (if i < length (called a) \<and> called a ! i then a
      else
        (let vals = (elements a)[i := x];
             n = remaining a - 1
         in a\<lparr>elements := vals, called := (called a)[i := True], remaining := n,
              result := (if n = 0 then resolve (Arr vals) (result a) else result a)\<rparr>))"

definition rejectAll :: "val \<Rightarrow> all_record \<Rightarrow> all_record" where
  "rejectAll e a = a\<lparr>result := reject e (result a)\<rparr>"

text \<open>The reaction job of input \<open>i\<close>, run when the input has settled with state \<open>st\<close>.\<close>

fun react :: "all_record \<Rightarrow> nat \<times> pstate \<Rightarrow> all_record" where
  "react a (i, Fulfilled v) = resolveElement i v a"
| "react a (i, Rejected e) = rejectAll e a"
| "react a (i, Pending) = a"

text \<open>
  The loop of \<open>Promise.all\<close> over its inputs, \<open>i\<close> the index of the next one: each input
  gets a slot in the array and raises the count, and \<open>then\<close> is called on it. For an
  input that is already settled this queues its reaction job at once; for a pending
  input the job is queued when the input settles.
\<close>

fun all_loop :: "pstate list \<Rightarrow> nat \<Rightarrow> all_record \<times> (nat \<times> pstate) list
                 \<Rightarrow> all_record \<times> (nat \<times> pstate) list" where
  "all_loop [] i (a, js) = (a, js)"
| "all_loop (st # sts) i (a, js) =
     all_loop sts (Suc i)
       (a\<lparr>elements := elements a @ [Undefined], called := called a @ [False],
          remaining := remaining a + 1\<rparr>,
        if st = Pending then js else js @ [(i, st)])"

text \<open>
  The call itself, on inputs in the given states: the count starts at 1 and is lowered
  once after the loop, so that the result is resolved inside the call exactly when there
  is no input. Returns the record and the jobs queued by the call.
\<close>

definition Promise_all_call :: "pstate list \<Rightarrow> all_record \<times> (nat \<times> pstate) list" where
  "Promise_all_call ins =
     (let (a, js) = all_loop ins 0
                      (\<lparr>elements = [], called = [], remaining = 1, result = Pending\<rparr>, []);
          n = remaining a - 1
      in (a\<lparr>remaining := n,
            result := (if n = 0 then resolve (Arr (elements a)) (result a) else result a)\<rparr>,
          js))"

text \<open>The call followed by the run of the jobs it queued, in queue order.\<close>

definition Promise_all :: "pstate list \<Rightarrow> all_record" where
  "Promise_all ins = (let (a, js) = Promise_all_call ins in foldl react a js)"

text \<open>
  After the call: input \<open>i\<close> settles with state \<open>st\<close>. An input settles once, so this
  has an effect only while the input is pending; then its reaction job runs.
\<close>

type_synonym join = "pstate list \<times> all_record"

definition settle_input :: "join \<Rightarrow> nat \<times> pstate \<Rightarrow> join" where
  "settle_input j ev =
     (case (j, ev) of ((ins, a), (i, st)) \<Rightarrow>
        if i < length ins \<and> ins ! i = Pending \<and> st \<noteq> Pending
        then (ins[i := st], react a (i, st)) else (ins, a))"

text \<open>
  A run of the combinator. \<open>outs\<close> gives for each input the state it settles with
  (\<open>Pending\<close>: it never settles), \<open>order\<close> lists the inputs in the order in which they
  settle, and the first \<open>k\<close> settlements happen before \<open>Promise.all\<close> is called.
\<close>

definition states_at_call :: "pstate list \<Rightarrow> nat list \<Rightarrow> nat \<Rightarrow> pstate list" where
  "states_at_call outs order k =
     foldl (\<lambda>ins i. if i < length ins \<and> ins ! i = Pending then ins[i := outs ! i] else ins)
       (replicate (length outs) Pending) (take k order)"

definition join_run :: "pstate list \<Rightarrow> nat list \<Rightarrow> nat \<Rightarrow> join" where
  "join_run outs order k =
     (let ins = states_at_call outs order k
      in foldl settle_input (ins, Promise_all ins) (map (\<lambda>i. (i, outs ! i)) (drop k order)))"

text \<open>
  The order in which the combinator observes the settlements of such a run: the inputs
  settled before the call in input order, then the later ones as they settle.
\<close>

definition observed :: "pstate list \<Rightarrow> nat list \<Rightarrow> nat \<Rightarrow> nat list" where
  "observed outs order k =
     filter (\<lambda>i. states_at_call outs order k ! i \<noteq> Pending) [0..<length outs] @ drop k order"

fun first_rejection :: "pstate list \<Rightarrow> nat list \<Rightarrow> val option" where
  "first_rejection outs [] = None"
| "first_rejection outs (i # is) =
     (if i < length outs then
        (case outs ! i of Rejected e \<Rightarrow> Some e | _ \<Rightarrow> first_rejection outs is)
      else first_rejection outs is)"

text \<open>
  Timers: \<open>setTimeout\<close> callbacks armed together run by increasing delay, and in the
  order of arming when the delays are equal. This is for delays from 1 ms to
  \<open>2^31 - 1\<close> ms, as in the scripts; a runtime may raise or lower a delay outside
  that range.
\<close>

definition timer_order :: "nat list \<Rightarrow> nat list" where
  "timer_order delays = sort_key (\<lambda>i. delays ! i) [0..<length delays]"

section \<open>level92/home/js.js: parallel\<close>

text \<open>
  \<open>p1\<close>, \<open>p2\<close>, \<open>p3\<close>: each executor arms a timer that resolves the promise; given as the
  delay of the timer and the state the promise settles with.
\<close>

definition p1 :: "nat \<times> pstate" where "p1 = (1000, Fulfilled (Str ''First''))"
definition p2 :: "nat \<times> pstate" where "p2 = (2000, Fulfilled (Str ''Second''))"
definition p3 :: "nat \<times> pstate" where "p3 = (1500, Fulfilled (Str ''Third''))"

text \<open>
  \<open>Promise.all(ps).then(results => { console.log(results) })\<close>, called while every
  promise of \<open>ps\<close> is pending: what the console shows when all timers have run.
\<close>

definition all_then_log :: "(nat \<times> pstate) list \<Rightarrow> val list" where
  "all_then_log ps =
     (case result (snd (join_run (map snd ps) (timer_order (map fst ps)) 0)) of
        Fulfilled results \<Rightarrow> [results]
      | _ \<Rightarrow> [])"

definition parallel_script :: "val list" where
  "parallel_script = all_then_log [p1, p2, p3]"

section \<open>level92/home/js.js: sequential\<close>

text \<open>
  An async function called as a step: from the arguments of the call, the time in ms
  after which the promise it returns settles, and the state it settles with
  (\<open>Pending\<close>: never).
\<close>

type_synonym step = "val list \<Rightarrow> nat \<times> pstate"

text \<open>\<open>new Promise(r => setTimeout(r, ms))\<close>: fulfilled with \<open>undefined\<close> after \<open>ms\<close>.\<close>

definition sleep :: "nat \<Rightarrow> nat \<times> pstate" where
  "sleep ms = (ms, Fulfilled Undefined)"

text \<open>
  \<open>await\<close> inside an async function whose rest is \<open>k\<close>: the function goes on with the
  value when the awaited promise is fulfilled, and its own promise is rejected with the
  error when the awaited promise is rejected.
\<close>

definition await :: "nat \<times> pstate \<Rightarrow> (val \<Rightarrow> nat \<times> pstate) \<Rightarrow> nat \<times> pstate" where
  "await p k =
     (case p of (d, st) \<Rightarrow>
        (case st of
           Fulfilled v \<Rightarrow> (case k v of (d', st') \<Rightarrow> (d + d', st'))
         | Rejected e \<Rightarrow> (d, Rejected e)
         | Pending \<Rightarrow> (d, Pending)))"

definition first :: step where
  "first args = await (sleep 1000) (\<lambda>_. (0, Fulfilled (Str ''First'')))"

definition second :: step where
  "second args = await (sleep 2000) (\<lambda>_. (0, Fulfilled (Str ''Second'')))"

definition third :: step where
  "third args = await (sleep 1500) (\<lambda>_. (0, Fulfilled (Str ''Third'')))"

text \<open>
  The shape of \<open>first\<close>, \<open>second\<close> and \<open>third\<close> with the delay and the returned value as
  parameters, and the same with a \<open>throw\<close> in place of the \<open>return\<close> (no step of the
  script throws; it serves to instantiate the statements about rejection).
\<close>

definition delayed :: "nat \<Rightarrow> val \<Rightarrow> step" where
  "delayed ms v args = await (sleep ms) (\<lambda>_. (0, Fulfilled v))"

definition failing :: "nat \<Rightarrow> val \<Rightarrow> step" where
  "failing ms e args = await (sleep ms) (\<lambda>_. (0, Rejected e))"

text \<open>
  What a run of the chain does, in order: step \<open>k\<close> is called with arguments at a time,
  the promise of step \<open>k\<close> settles at a time, the \<open>k\<close>-th \<open>console.log\<close> prints a value.
\<close>

datatype event = Invoked nat "val list" nat | Settled nat pstate nat | Logged nat val

text \<open>
  \<open>const result = await s(); console.log(result);\<close> as statement \<open>k\<close> of an async
  function at time \<open>t\<close>, with \<open>rest\<close> the statements after it. The step is called with
  no argument. Returns the events and the state of the function's own promise.
\<close>

definition await_log :: "nat \<Rightarrow> step \<Rightarrow> nat \<Rightarrow> (nat \<Rightarrow> event list \<times> pstate)
                          \<Rightarrow> event list \<times> pstate" where
  "await_log k s t rest =
     (case s [] of (d, st) \<Rightarrow>
        (case st of
           Pending \<Rightarrow> ([Invoked k [] t], Pending)
         | Rejected e \<Rightarrow> ([Invoked k [] t, Settled k st (t + d)], Rejected e)
         | Fulfilled v \<Rightarrow>
             (case rest (t + d) of (evs, res) \<Rightarrow>
                ([Invoked k [] t, Settled k st (t + d), Logged k v] @ evs, res))))"

definition runSequential :: "event list \<times> pstate" where
  "runSequential =
     await_log 0 first 0 (\<lambda>t.
     await_log 1 second t (\<lambda>t.
     await_log 2 third t (\<lambda>t. ([], Fulfilled Undefined))))"

text \<open>The same function over any list of steps, \<open>k\<close> the index of the first one.\<close>

fun chain :: "step list \<Rightarrow> nat \<Rightarrow> nat \<Rightarrow> event list \<times> pstate" where
  "chain [] k t = ([], Fulfilled Undefined)"
| "chain (s # ss) k t =
     (case s [] of (d, st) \<Rightarrow>
        (case st of
           Pending \<Rightarrow> ([Invoked k [] t], Pending)
         | Rejected e \<Rightarrow> ([Invoked k [] t, Settled k st (t + d)], Rejected e)
         | Fulfilled v \<Rightarrow>
             (case chain ss (Suc k) (t + d) of (evs, res) \<Rightarrow>
                ([Invoked k [] t, Settled k st (t + d), Logged k v] @ evs, res))))"

definition logged :: "event list \<Rightarrow> val list" where
  "logged evs = concat (map (\<lambda>ev. case ev of Logged k v \<Rightarrow> [v] | _ \<Rightarrow> []) evs)"

fun step_of :: "event \<Rightarrow> nat" where
  "step_of (Invoked k args t) = k"
| "step_of (Settled k st t) = k"
| "step_of (Logged k v) = k"

fun is_invoked :: "event \<Rightarrow> bool" where
  "is_invoked (Invoked k args t) = True"
| "is_invoked _ = False"

section \<open>project/js2.js: the points counter\<close>

text \<open>
  The page state: the global \<open>points\<close> and the document, a map from element ids to the
  properties of the element. \<open>points\<close> starts at 0 and is only ever incremented or
  decreased by 10, so it is an integer (exactly so below \<open>2^53\<close>, which the page
  cannot reach by single increments).
\<close>

type_synonym element = "string \<rightharpoonup> string"

record page =
  points :: int
  document :: "string \<rightharpoonup> element"

fun show_nat :: "nat \<Rightarrow> string" where
  "show_nat n =
     (if n < 10 then [char_of (48 + n)]
      else show_nat (n div 10) @ [char_of (48 + n mod 10)])"

declare show_nat.simps [simp del]

definition show_int :: "int \<Rightarrow> string" where
  "show_int i = (if i < 0 then CHR ''-'' # show_nat (nat (- i)) else show_nat (nat i))"

text \<open>
  \<open>document.getElementById("pointsDisplay").innerText = points\<close>, with the name of the
  property as a parameter. When the page has no such element, \<open>getElementById\<close>
  returns \<open>null\<close> and the assignment throws; the state reached is returned in both
  cases, with the error if there is one.
\<close>

definition write_points :: "string \<Rightarrow> page \<Rightarrow> js_error option \<times> page" where
  "write_points prop s =
     (case document s ''pointsDisplay'' of
        None \<Rightarrow> (Some TypeError, s)
      | Some el \<Rightarrow>
          (None, s\<lparr>document := (document s)(''pointsDisplay'' \<mapsto>
                                    el(prop \<mapsto> show_int (points s)))\<rparr>))"

definition updatePointsDisplay :: "page \<Rightarrow> js_error option \<times> page" where
  "updatePointsDisplay s = write_points ''innerText'' s"

definition addPoint :: "page \<Rightarrow> js_error option \<times> page" where
  "addPoint s = updatePointsDisplay (s\<lparr>points := points s + 1\<rparr>)"

text \<open>
  \<open>add100\<close> evaluates the expression statement \<open>points + 100\<close> and drops its value.
\<close>

definition add100 :: "page \<Rightarrow> js_error option \<times> page" where
  "add100 s = (let _ = points s + 100 in updatePointsDisplay s)"

text \<open>
  The file holds a second copy of the script, which differs in the property it writes:
  \<open>Text\<close> in place of \<open>innerText\<close>.
\<close>

definition updatePointsDisplay' :: "page \<Rightarrow> js_error option \<times> page" where
  "updatePointsDisplay' s = write_points ''Text'' s"

definition add100' :: "page \<Rightarrow> js_error option \<times> page" where
  "add100' s = (let _ = points s + 100 in updatePointsDisplay' s)"

section \<open>Vocabulary of the proofs\<close>

text \<open>
  The record of \<open>Promise.all\<close> over \<open>n\<close> inputs before any reaction job has run.
\<close>

definition all_init :: "nat \<Rightarrow> all_record" where
  "all_init n = \<lparr>elements = replicate n Undefined, called = replicate n False, remaining = n,
                 result = (if n = 0 then Fulfilled (Arr []) else Pending)\<rparr>"

text \<open>
  The state of a run in which the settlements of the inputs in \<open>S\<close> have been observed
  and none of them was a rejection: \<open>seen\<close> is the state of an input, \<open>got\<close> the inputs
  whose value has been stored.
\<close>

definition seen :: "pstate list \<Rightarrow> nat set \<Rightarrow> nat \<Rightarrow> pstate" where
  "seen outs S i = (if i \<in> S then outs ! i else Pending)"

definition got :: "pstate list \<Rightarrow> nat set \<Rightarrow> nat set" where
  "got outs S = {i. i < length outs \<and> (\<exists>v. seen outs S i = Fulfilled v)}"

definition join_after :: "pstate list \<Rightarrow> nat set \<Rightarrow> join" where
  "join_after outs S =
     (let n = length outs;
          m = n - card (got outs S);
          els = map (\<lambda>i. case seen outs S i of Fulfilled v \<Rightarrow> v | _ \<Rightarrow> Undefined) [0..<n]
      in (map (seen outs S) [0..<n],
          \<lparr>elements = els, called = map (\<lambda>i. i \<in> got outs S) [0..<n], remaining = m,
           result = (if m = 0 then Fulfilled (Arr els) else Pending)\<rparr>))"




section \<open>Properties of Promise.all\<close>

lemma all_loop_eq:
  "all_loop sts i (a, js) =
     (a\<lparr>elements := elements a @ replicate (length sts) Undefined,
        called := called a @ replicate (length sts) False,
        remaining := remaining a + length sts\<rparr>,
      js @ map (\<lambda>j. (i + j, sts ! j)) (filter (\<lambda>j. sts ! j \<noteq> Pending) [0..<length sts]))"
proof (induction sts arbitrary: i a js)
  case Nil
  show ?case by simp
next
  case (Cons st sts)
  have upt: "[0..<Suc (length sts)] = 0 # map Suc [0..<length sts]"
    by (simp add: upt_conv_Cons map_Suc_upt del: upt_Suc)
  show ?case
    unfolding all_loop.simps Cons.IH length_Cons upt
    by (simp add: filter_map o_def replicate_app_Cons_same)
qed

lemma Promise_all_call_eq:
  "Promise_all_call ins =
     (all_init (length ins),
      map (\<lambda>j. (j, ins ! j)) (filter (\<lambda>j. ins ! j \<noteq> Pending) [0..<length ins]))"
  by (simp add: Promise_all_call_def all_loop_eq all_init_def resolve_def)

lemma settle_input_pair:
  "settle_input (ins, a) (i, st) =
     (if i < length ins \<and> ins ! i = Pending \<and> st \<noteq> Pending
      then (ins[i := st], react a (i, st)) else (ins, a))"
  by (simp add: settle_input_def)

lemma join_after_empty: "join_after outs {} = (replicate (length outs) Pending, all_init (length outs))"
proof -
  have "seen outs {} = (\<lambda>i. Pending)"
    by (rule ext) (simp add: seen_def)
  then show ?thesis
    by (simp add: join_after_def Let_def got_def all_init_def map_replicate_const)
qed

lemma join_after_cong:
  assumes "\<And>j. j < length outs \<Longrightarrow> seen outs S j = seen outs S' j"
  shows "join_after outs S = join_after outs S'"
proof -
  have g: "got outs S = got outs S'"
    using assms by (auto simp: got_def)
  have m1: "map (seen outs S) [0..<length outs] = map (seen outs S') [0..<length outs]"
    using assms by simp
  have m2: "map (\<lambda>i. case seen outs S i of Fulfilled v \<Rightarrow> v | _ \<Rightarrow> Undefined) [0..<length outs]
          = map (\<lambda>i. case seen outs S' i of Fulfilled v \<Rightarrow> v | _ \<Rightarrow> Undefined) [0..<length outs]"
    using assms by simp
  show ?thesis
    by (simp only: join_after_def Let_def g m1 m2)
qed

lemma got_finite: "finite (got outs S)"
  by (simp add: got_def)

lemma got_card_less:
  assumes "i < length outs" and "i \<notin> got outs S"
  shows "card (got outs S) < length outs"
proof -
  have "got outs S \<subseteq> {..<length outs} - {i}"
    using assms(2) by (auto simp: got_def)
  then have "card (got outs S) \<le> card ({..<length outs} - {i})"
    by (intro card_mono) auto
  also have "\<dots> < length outs"
    using assms(1) by simp
  finally show ?thesis .
qed

lemma got_insert:
  assumes "i < length outs" and "outs ! i = Fulfilled v"
  shows "got outs (insert i S) = insert i (got outs S)"
  using assms by (auto simp: got_def seen_def)

lemma settle_input_fulfilled:
  assumes i: "i < length outs" and new: "seen outs S i = Pending" and out: "outs ! i = Fulfilled v"
  shows "settle_input (join_after outs S) (i, outs ! i) = join_after outs (insert i S)"
proof -
  let ?n = "length outs"
  let ?els = "\<lambda>S. map (\<lambda>j. case seen outs S j of Fulfilled v \<Rightarrow> v | _ \<Rightarrow> Undefined) [0..<?n]"
  have notin: "i \<notin> got outs S"
    using new by (simp add: got_def)
  have less: "card (got outs S) < ?n"
    using got_card_less [OF i notin] .
  have card: "card (got outs (insert i S)) = Suc (card (got outs S))"
    using notin by (simp add: got_insert [OF i out] got_finite)
  have ins: "(map (seen outs S) [0..<?n])[i := Fulfilled v] = map (seen outs (insert i S)) [0..<?n]"
    using i out by (intro nth_equalityI) (auto simp: seen_def nth_list_update)
  have els: "(?els S)[i := v] = ?els (insert i S)"
    using i out by (intro nth_equalityI) (auto simp: seen_def nth_list_update)
  have cal: "(map (\<lambda>j. j \<in> got outs S) [0..<?n])[i := True] = map (\<lambda>j. j \<in> got outs (insert i S)) [0..<?n]"
    using i by (intro nth_equalityI) (auto simp: got_insert [OF i out] nth_list_update)
  have rem: "?n - card (got outs S) - 1 = ?n - card (got outs (insert i S))"
    by (simp add: card)
  have pos: "?n - card (got outs S) \<noteq> 0"
    using less by simp
  show ?thesis
    using i new out notin pos
    by (simp add: settle_input_def join_after_def Let_def resolveElement_def resolve_def
                  ins els cal card)
qed

lemma settle_input_step:
  assumes "i < length outs \<Longrightarrow> \<forall>e. outs ! i \<noteq> Rejected e"
  shows "settle_input (join_after outs S) (i, outs ! i) = join_after outs (insert i S)"
proof (cases "i < length outs \<and> seen outs S i = Pending \<and> outs ! i \<noteq> Pending")
  case True
  then obtain v where "outs ! i = Fulfilled v"
    using assms by (cases "outs ! i") auto
  with True show ?thesis
    using settle_input_fulfilled by simp
next
  case False
  have same: "join_after outs (insert i S) = join_after outs S"
  proof (rule join_after_cong)
    fix j assume "j < length outs"
    with False show "seen outs (insert i S) j = seen outs S j"
      by (auto simp: seen_def)
  qed
  have "settle_input (join_after outs S) (i, outs ! i) = join_after outs S"
    using False by (auto simp: settle_input_def join_after_def Let_def)
  with same show ?thesis by simp
qed

lemma run_closed:
  assumes "\<forall>i \<in> set L. i < length outs \<longrightarrow> (\<forall>e. outs ! i \<noteq> Rejected e)"
  shows "foldl settle_input (replicate (length outs) Pending, all_init (length outs))
           (map (\<lambda>i. (i, outs ! i)) L) = join_after outs (set L)"
  using assms
proof (induction L rule: rev_induct)
  case Nil
  show ?case by (simp add: join_after_empty)
next
  case (snoc i L)
  then show ?case
    by (simp add: settle_input_step insert_commute Un_commute)
qed

lemma states_at_call_closed:
  "foldl (\<lambda>ins i. if i < length ins \<and> ins ! i = Pending then ins[i := outs ! i] else ins)
     (replicate (length outs) Pending) L = map (seen outs (set L)) [0..<length outs]"
proof (induction L rule: rev_induct)
  case Nil
  show ?case by (simp add: seen_def map_replicate_const)
next
  case (snoc i L)
  let ?xs = "map (seen outs (set L)) [0..<length outs]"
  let ?ys = "if i < length ?xs \<and> ?xs ! i = Pending then ?xs[i := outs ! i] else ?xs"
  have len: "length ?ys = length outs"
    by simp
  have "?ys ! j = seen outs (insert i (set L)) j" if "j < length outs" for j
    using that by (auto simp: seen_def nth_list_update)
  then have "?ys = map (seen outs (insert i (set L))) [0..<length outs]"
    using len by (intro nth_equalityI) simp_all
  then show ?case
    by (simp add: snoc.IH)
qed

lemma states_at_call_eq:
  "states_at_call outs order k = map (seen outs (set (take k order))) [0..<length outs]"
  by (simp add: states_at_call_def states_at_call_closed)

lemma settled_phase:
  assumes "distinct A" and "\<forall>j \<in> set A. j < n \<and> ins0 ! j \<noteq> Pending"
  shows "foldl settle_input (replicate n Pending, a) (map (\<lambda>j. (j, ins0 ! j)) A)
       = (map (\<lambda>i. if i \<in> set A then ins0 ! i else Pending) [0..<n],
          foldl react a (map (\<lambda>j. (j, ins0 ! j)) A))"
  using assms
proof (induction A rule: rev_induct)
  case Nil
  show ?case by (simp add: map_replicate_const)
next
  case (snoc j A)
  let ?xs = "map (\<lambda>i. if i \<in> set A then ins0 ! i else Pending) [0..<n]"
  let ?b = "foldl react a (map (\<lambda>j. (j, ins0 ! j)) A)"
  have j: "j < n" "ins0 ! j \<noteq> Pending" "j \<notin> set A"
    using snoc.prems by auto
  have IH: "foldl settle_input (replicate n Pending, a) (map (\<lambda>j. (j, ins0 ! j)) A) = (?xs, ?b)"
    using snoc by simp
  have upd: "?xs[j := ins0 ! j] = map (\<lambda>i. if i \<in> set (A @ [j]) then ins0 ! i else Pending) [0..<n]"
    using j by (intro nth_equalityI) (auto simp: nth_list_update)
  have pend: "j < length ?xs \<and> ?xs ! j = Pending \<and> ins0 ! j \<noteq> Pending"
    using j by simp
  have "settle_input (?xs, ?b) (j, ins0 ! j) = (?xs[j := ins0 ! j], react ?b (j, ins0 ! j))"
    unfolding settle_input_pair using pend by simp
  then show ?case
    unfolding map_append foldl_append list.map foldl_Cons foldl_Nil IH upd by simp
qed

lemma Promise_all_phase:
  assumes "length ins0 = n"
  shows "foldl settle_input (replicate n Pending, all_init n)
           (map (\<lambda>j. (j, ins0 ! j)) (filter (\<lambda>j. ins0 ! j \<noteq> Pending) [0..<n]))
       = (ins0, Promise_all ins0)"
proof -
  define A where "A = filter (\<lambda>j. ins0 ! j \<noteq> Pending) [0..<n]"
  have A: "distinct A" "\<forall>j \<in> set A. j < n \<and> ins0 ! j \<noteq> Pending"
    by (simp_all add: A_def)
  have mem: "i \<in> set A \<longleftrightarrow> ins0 ! i \<noteq> Pending" if "i < n" for i
    using that by (simp add: A_def)
  have "map (\<lambda>i. if i \<in> set A then ins0 ! i else Pending) [0..<n] ! i = ins0 ! i" if "i < n" for i
    using that mem [OF that] by simp
  then have ins: "map (\<lambda>i. if i \<in> set A then ins0 ! i else Pending) [0..<n] = ins0"
    using assms by (intro nth_equalityI) simp_all
  have all: "Promise_all ins0 = foldl react (all_init n) (map (\<lambda>j. (j, ins0 ! j)) A)"
    using assms by (simp add: Promise_all_def Promise_all_call_eq A_def)
  show ?thesis
    unfolding A_def [symmetric] settled_phase [OF A] ins all ..
qed

lemma join_run_observed:
  "join_run outs order k =
     foldl settle_input (replicate (length outs) Pending, all_init (length outs))
       (map (\<lambda>i. (i, outs ! i)) (observed outs order k))"
proof -
  let ?n = "length outs"
  let ?ins0 = "states_at_call outs order k"
  let ?A = "filter (\<lambda>j. ?ins0 ! j \<noteq> Pending) [0..<?n]"
  have len: "length ?ins0 = ?n"
    by (simp add: states_at_call_eq)
  have same: "map (\<lambda>i. (i, outs ! i)) ?A = map (\<lambda>j. (j, ?ins0 ! j)) ?A"
    by (rule map_cong) (auto simp: states_at_call_eq seen_def split: if_splits)
  have "foldl settle_input (replicate ?n Pending, all_init ?n) (map (\<lambda>i. (i, outs ! i)) ?A)
      = (?ins0, Promise_all ?ins0)"
    unfolding same by (rule Promise_all_phase [OF len])
  then show ?thesis
    by (simp only: observed_def map_append foldl_append join_run_def Let_def)
qed

lemma result_stable:
  assumes "result (snd j) = Rejected e"
  shows "result (snd (foldl settle_input j evs)) = Rejected e"
  using assms
proof (induction evs arbitrary: j)
  case Nil
  then show ?case by simp
next
  case (Cons ev evs)
  obtain ins a where j: "j = (ins, a)" by (cases j)
  obtain i st where ev: "ev = (i, st)" by (cases ev)
  have "result (snd (settle_input j ev)) = Rejected e"
    using Cons.prems
    by (cases st) (auto simp: j ev settle_input_def resolveElement_def rejectAll_def
                              resolve_def reject_def Let_def)
  then show ?case
    using Cons.IH by simp
qed


lemma observed_covers:
  assumes "i \<in> set order" and "i < length outs" and "outs ! i \<noteq> Pending"
  shows "i \<in> set (observed outs order k)"
proof (cases "i \<in> set (drop k order)")
  case True
  then show ?thesis by (simp add: observed_def)
next
  case False
  have "set order = set (take k order) \<union> set (drop k order)"
    by (metis append_take_drop_id set_append)
  with assms(1) False have "i \<in> set (take k order)" by simp
  then have "states_at_call outs order k ! i \<noteq> Pending"
    using assms(2,3) by (simp add: states_at_call_eq seen_def)
  then show ?thesis
    using assms(2) by (simp add: observed_def)
qed

lemma observed_0: "observed outs order 0 = order"
  by (simp add: observed_def states_at_call_eq seen_def)

lemma all_fulfilled_result:
  assumes "{..<length vs} \<subseteq> set order"
  shows "result (snd (join_run (map Fulfilled vs) order k)) = Fulfilled (Arr vs)"
proof -
  let ?outs = "map Fulfilled vs"
  let ?S = "set (observed ?outs order k)"
  have norej: "\<forall>i \<in> ?S. i < length ?outs \<longrightarrow> (\<forall>e. ?outs ! i \<noteq> Rejected e)"
    by simp
  have run: "join_run ?outs order k = join_after ?outs ?S"
    unfolding join_run_observed by (rule run_closed [OF norej])
  have mem: "i \<in> ?S" if "i < length vs" for i
    using that assms by (intro observed_covers) auto
  then have got: "got ?outs ?S = {..<length vs}"
    by (auto simp: got_def seen_def)
  have "map (\<lambda>i. case seen ?outs ?S i of Fulfilled v \<Rightarrow> v | _ \<Rightarrow> Undefined) [0..<length vs] ! i = vs ! i"
    if "i < length vs" for i
    using that mem [OF that] by (simp add: seen_def)
  then have els: "map (\<lambda>i. case seen ?outs ?S i of Fulfilled v \<Rightarrow> v | _ \<Rightarrow> Undefined) [0..<length vs] = vs"
    by (intro nth_equalityI) simp_all
  show ?thesis
    unfolding run by (simp add: join_after_def Let_def got els)
qed

lemma set_timer_order: "set (timer_order ds) = {..<length ds}"
  by (auto simp: timer_order_def)

lemma all_then_log_fulfilled:
  assumes "length ds = length vs"
  shows "all_then_log (zip ds (map Fulfilled vs)) = [Arr vs]"
proof -
  have "map snd (zip ds (map Fulfilled vs)) = map Fulfilled vs"
       "map fst (zip ds (map Fulfilled vs)) = ds"
    using assms by simp_all
  moreover have "{..<length vs} \<subseteq> set (timer_order ds)"
    using assms by (simp add: set_timer_order)
  ultimately show ?thesis
    by (simp add: all_then_log_def all_fulfilled_result)
qed

lemma first_rejection_SomeD:
  assumes "first_rejection outs L = Some e"
  shows "\<exists>L1 r L2. L = L1 @ r # L2 \<and> r < length outs \<and> outs ! r = Rejected e
            \<and> (\<forall>i \<in> set L1. i < length outs \<longrightarrow> (\<forall>e'. outs ! i \<noteq> Rejected e'))"
  using assms
proof (induction L)
  case Nil
  then show ?case by simp
next
  case (Cons i L)
  show ?case
  proof (cases "i < length outs \<and> (\<exists>e'. outs ! i = Rejected e')")
    case True
    with Cons.prems have "outs ! i = Rejected e" by auto
    with True have "i # L = [] @ i # L \<and> i < length outs \<and> outs ! i = Rejected e
          \<and> (\<forall>i \<in> set []. i < length outs \<longrightarrow> (\<forall>e'. outs ! i \<noteq> Rejected e'))"
      by simp
    then show ?thesis by blast
  next
    case False
    then have "first_rejection outs L = Some e"
      using Cons.prems by (auto split: pstate.splits if_splits)
    from Cons.IH [OF this] obtain L1 r L2 where
      "L = L1 @ r # L2" "r < length outs" "outs ! r = Rejected e"
      "\<forall>i \<in> set L1. i < length outs \<longrightarrow> (\<forall>e'. outs ! i \<noteq> Rejected e')"
      by blast
    with False have "i # L = (i # L1) @ r # L2 \<and> r < length outs \<and> outs ! r = Rejected e
          \<and> (\<forall>j \<in> set (i # L1). j < length outs \<longrightarrow> (\<forall>e'. outs ! j \<noteq> Rejected e'))"
      by auto
    then show ?thesis by blast
  qed
qed

lemma first_rejection_exists:
  assumes "i \<in> set L" and "i < length outs" and "outs ! i = Rejected e0"
  shows "\<exists>e. first_rejection outs L = Some e"
  using assms by (induction L) (auto split: pstate.splits)

lemma reject_step:
  assumes "r < length outs" and "r \<notin> S" and "outs ! r = Rejected e"
  shows "result (snd (settle_input (join_after outs S) (r, outs ! r))) = Rejected e"
proof -
  have "r \<notin> got outs S"
    using assms(2) by (simp add: got_def seen_def)
  from got_card_less [OF assms(1) this]
  have "length outs - card (got outs S) \<noteq> 0" by simp
  then show ?thesis
    using assms
    by (simp add: join_after_def Let_def settle_input_pair seen_def rejectAll_def reject_def)
qed

lemma first_rejection_result:
  assumes "first_rejection outs (observed outs order k) = Some e"
  shows "result (snd (join_run outs order k)) = Rejected e"
proof -
  let ?ev = "\<lambda>i. (i, outs ! i)"
  let ?init = "(replicate (length outs) Pending, all_init (length outs))"
  from first_rejection_SomeD [OF assms] obtain L1 r L2 where
    L: "observed outs order k = L1 @ r # L2" and r: "r < length outs" "outs ! r = Rejected e"
    and L1: "\<forall>i \<in> set L1. i < length outs \<longrightarrow> (\<forall>e'. outs ! i \<noteq> Rejected e')"
    by blast
  have notin: "r \<notin> set L1"
    using r L1 by auto
  have "foldl settle_input ?init (map ?ev L1) = join_after outs (set L1)"
    by (rule run_closed [OF L1])
  then have "result (snd (foldl settle_input ?init (map ?ev (L1 @ [r])))) = Rejected e"
    using reject_step [OF r(1) notin r(2)] by simp
  then have "result (snd (foldl settle_input (foldl settle_input ?init (map ?ev (L1 @ [r])))
                            (map ?ev L2))) = Rejected e"
    by (rule result_stable)
  then show ?thesis
    unfolding join_run_observed L by simp
qed

text \<open>
  C1. When every input of \<open>Promise.all\<close> is eventually fulfilled (every index occurs in
  the settlement order), the result is fulfilled with the array of the values in input
  order, for every settlement order and however many inputs had settled before the call;
  so also for every list of timer delays. For \<open>p1\<close>, \<open>p2\<close>, \<open>p3\<close> (settling after 1000,
  2000 and 1500 ms) the script logs \<open>["First", "Second", "Third"]\<close>. The list need not
  even be non-empty.
\<close>

theorem Promise_all_input_order:
  "({..<length vs} \<subseteq> set order \<longrightarrow>
      result (snd (join_run (map Fulfilled vs) order k)) = Fulfilled (Arr vs))
   \<and> (length ds = length vs \<longrightarrow> all_then_log (zip ds (map Fulfilled vs)) = [Arr vs])
   \<and> parallel_script = [Arr [Str ''First'', Str ''Second'', Str ''Third'']]"
proof -
  have "parallel_script = all_then_log (zip [1000, 2000, 1500]
          (map Fulfilled [Str ''First'', Str ''Second'', Str ''Third'']))"
    by (simp add: parallel_script_def p1_def p2_def p3_def)
  also have "\<dots> = [Arr [Str ''First'', Str ''Second'', Str ''Third'']]"
    by (rule all_then_log_fulfilled) simp
  finally show ?thesis
    using all_fulfilled_result all_then_log_fulfilled by blast
qed

theorem Promise_all_input_order_witness:
  "{..<length [Str ''First'', Str ''Second'', Str ''Third'']} \<subseteq> set [0, 2, 1::nat]
   \<and> result (snd (join_run (map Fulfilled [Str ''First'', Str ''Second'', Str ''Third''])
                     [0, 2, 1] 0))
     = Fulfilled (Arr [Str ''First'', Str ''Second'', Str ''Third''])
   \<and> timer_order [1000, 2000, 1500] = [0, 2, 1]
   \<and> length [30, 10, 20::nat] = length [Num 1, Num 2, Num 3]
   \<and> all_then_log (zip [30, 10, 20] (map Fulfilled [Num 1, Num 2, Num 3]))
     = [Arr [Num 1, Num 2, Num 3]]"
proof -
  have a: "{..<length [Str ''First'', Str ''Second'', Str ''Third'']} \<subseteq> set [0, 2, 1::nat]"
    by (auto simp: lessThan_def less_Suc_eq)
  have b: "timer_order [1000, 2000, 1500] = [0, 2, 1]"
    by (simp add: timer_order_def upt_rec)
  have c: "length [30, 10, 20::nat] = length [Num 1, Num 2, Num 3]"
    by simp
  show ?thesis
    using Promise_all_input_order [of "[Str ''First'', Str ''Second'', Str ''Third'']" "[0, 2, 1]" 0]
          Promise_all_input_order [of "[Num 1, Num 2, Num 3]" _ _ "[30, 10, 20]"] a b c
    by blast
qed

text \<open>
  C3, as stated, fails: when two inputs have both rejected before \<open>Promise.all\<close> is
  called, input 1 first (settlement order \<open>[1, 0]\<close>, both settlements before the call),
  the reaction jobs are queued in input order and the result carries the error of input
  0, not that of input 1, the first to reject.
\<close>

theorem Promise_all_settlement_order_counterexample:
  "first_rejection [Rejected (Str ''zero''), Rejected (Str ''one'')] [1, 0] = Some (Str ''one'')
   \<and> result (snd (join_run [Rejected (Str ''zero''), Rejected (Str ''one'')] [1, 0] 2))
       = Rejected (Str ''zero'')
   \<and> Rejected (Str ''zero'') \<noteq> Rejected (Str ''one'')"
  by (simp add: join_run_def states_at_call_def Promise_all_def Promise_all_call_def
        rejectAll_def reject_def resolve_def)

text \<open>
  C3, amended. When an input that settles rejects, the result of \<open>Promise.all\<close> is a
  rejection, whatever the other inputs do, and it carries the error of the rejecting
  input whose settlement the combinator observes first: the inputs already settled at
  the call are observed in input order, then the others in the order in which they
  settle. When every input is pending at the call (as in the script, where all inputs
  settle on timers) this is the input that rejects first by settlement time.
\<close>

theorem Promise_all_first_observed_rejection:
  assumes "i \<in> set order" and "i < length outs" and "outs ! i = Rejected e0"
  shows "(\<exists>e. first_rejection outs (observed outs order k) = Some e
            \<and> result (snd (join_run outs order k)) = Rejected e)
       \<and> observed outs order 0 = order"
proof -
  have "i \<in> set (observed outs order k)"
    using assms by (intro observed_covers) auto
  from first_rejection_exists [OF this assms(2,3)]
  obtain e where "first_rejection outs (observed outs order k) = Some e" ..
  then have "\<exists>e. first_rejection outs (observed outs order k) = Some e
            \<and> result (snd (join_run outs order k)) = Rejected e"
    using first_rejection_result by blast
  then show ?thesis
    using observed_0 by simp
qed

theorem Promise_all_first_observed_rejection_witness:
  "(2::nat) \<in> set [2, 0, 1] \<and> 2 < length [Fulfilled (Num 0), Rejected (Str ''one''), Rejected (Str ''two'')]
   \<and> [Fulfilled (Num 0), Rejected (Str ''one''), Rejected (Str ''two'')] ! 2 = Rejected (Str ''two'')
   \<and> result (snd (join_run [Fulfilled (Num 0), Rejected (Str ''one''), Rejected (Str ''two'')]
                     [2, 0, 1] 0)) = Rejected (Str ''two'')"
proof -
  let ?outs = "[Fulfilled (Num 0), Rejected (Str ''one''), Rejected (Str ''two'')]"
  have a: "(2::nat) \<in> set [2, 0, 1]" and b: "2 < length ?outs"
    and c: "?outs ! 2 = Rejected (Str ''two'')"
    by simp_all
  from Promise_all_first_observed_rejection [OF a b c, of 0]
  obtain e where e: "first_rejection ?outs (observed ?outs [2, 0, 1] 0) = Some e"
      "result (snd (join_run ?outs [2, 0, 1] 0)) = Rejected e"
    and o: "observed ?outs [2, 0, 1] 0 = [2, 0, 1]"
    by blast
  from e(1) have "e = Str ''two''"
    unfolding o by simp
  with e(2) a b c show ?thesis
    by simp
qed

text \<open>
  C7. On the empty list \<open>Promise.all\<close> resolves its result inside the call, with the
  empty array: the result is already fulfilled when the call returns, no job is queued,
  and nothing that settles later changes it.
\<close>

theorem Promise_all_empty:
  "Promise_all_call [] = (\<lparr>elements = [], called = [], remaining = 0, result = Fulfilled (Arr [])\<rparr>, [])
   \<and> result (snd (join_run [] order k)) = Fulfilled (Arr [])"
proof -
  have "result (snd (join_run (map Fulfilled []) order k)) = Fulfilled (Arr [])"
    by (rule all_fulfilled_result) simp
  then show ?thesis
    by (simp add: Promise_all_call_def resolve_def)
qed

section \<open>Properties of the promise runtime\<close>

lemmas runtime_defs = start_def new_promise_def then_promise_def settle_promise_def
  resolve_promise_def reject_promise_def run_job_def resolve_def reject_def Let_def




































lemma changes_const: "\<forall>s \<in> set ss. s = c \<Longrightarrow> changes ss = 0"
  by (induction ss rule: changes.induct) simp_all






lemma chainPromise_script_run:
  "console (drain (chainPromise_script start)) = [Num 20]"
  "calls (drain (chainPromise_script start))
     = [(Arrow plus5, Num 5, 1), (Arrow times2, Num 10, 2), (ConsoleLog, Num 20, 3)]"
  by (simp_all add: chainPromise_script_def chainPromise_def drain_def pending_work_def
        runtime_defs plus5_def times2_def eval_nat_numeral)


lemma level91_console:
  "console (level91 999) = [Str ''Operation successful!'', Num 20]"
  "console (level91 1000)
     = [Str ''Operation successful!'', Num 20, Str ''Data loaded successfully!'']"
  by (simp_all add: level91_def myPromise_script_def myPromise_timer_def catch_promise_def
        conditionalPromise_script_def chainPromise_script_def chainPromise_def drain_def
        pending_work_def runtime_defs plus5_def times2_def eval_nat_numeral)


section \<open>Properties of the sequential chain\<close>

lemma delayed_eq: "delayed ms v args = (ms, Fulfilled v)"
  by (simp add: delayed_def await_def sleep_def)

lemma first_second_third:
  "first = delayed 1000 (Str ''First'')" "second = delayed 2000 (Str ''Second'')"
  "third = delayed 1500 (Str ''Third'')"
  by (rule ext, simp add: first_def second_def third_def delayed_def)+

lemma chain_await_log:
  "chain (s # ss) k t = await_log k s t (\<lambda>t'. chain ss (Suc k) t')"
  by (simp add: await_log_def)

lemma runSequential_chain: "runSequential = chain [first, second, third] 0 0"
  by (simp only: runSequential_def chain_await_log chain.simps(1) numeral_2_eq_2 One_nat_def)

lemma chain_step_ge:
  assumes "ev \<in> set (fst (chain steps k0 t0))"
  shows "k0 \<le> step_of ev"
  using assms
proof (induction steps arbitrary: k0 t0)
  case Nil
  then show ?case by simp
next
  case (Cons s ss)
  obtain d st where s: "s [] = (d, st)" by (cases "s []")
  show ?case
  proof (cases st)
    case Pending
    with Cons.prems s show ?thesis by auto
  next
    case (Rejected e)
    with Cons.prems s show ?thesis by auto
  next
    case (Fulfilled v)
    obtain evs res where c: "chain ss (Suc k0) (t0 + d) = (evs, res)"
      by (cases "chain ss (Suc k0) (t0 + d)")
    from Cons.prems s Fulfilled c
    have "ev \<in> {Invoked k0 [] t0, Settled k0 st (t0 + d), Logged k0 v} \<or> ev \<in> set evs"
      by auto
    then show ?thesis
    proof
      assume "ev \<in> {Invoked k0 [] t0, Settled k0 st (t0 + d), Logged k0 v}"
      then show ?thesis by auto
    next
      assume "ev \<in> set evs"
      then have "ev \<in> set (fst (chain ss (Suc k0) (t0 + d)))" by (simp add: c)
      from Cons.IH [OF this] show ?thesis by simp
    qed
  qed
qed

lemma chain_invoked:
  assumes "Invoked j args t \<in> set (fst (chain steps k0 t0))"
  shows "t0 \<le> t \<and> args = []"
  using assms
proof (induction steps arbitrary: k0 t0)
  case Nil
  then show ?case by simp
next
  case (Cons s ss)
  obtain d st where s: "s [] = (d, st)" by (cases "s []")
  show ?case
  proof (cases st)
    case Pending
    with Cons.prems s show ?thesis by auto
  next
    case (Rejected e)
    with Cons.prems s show ?thesis by auto
  next
    case (Fulfilled v)
    obtain evs res where c: "chain ss (Suc k0) (t0 + d) = (evs, res)"
      by (cases "chain ss (Suc k0) (t0 + d)")
    from Cons.prems s Fulfilled c
    have "Invoked j args t = Invoked k0 [] t0 \<or> Invoked j args t \<in> set evs"
      by auto
    then show ?thesis
    proof
      assume "Invoked j args t = Invoked k0 [] t0"
      then show ?thesis by simp
    next
      assume "Invoked j args t \<in> set evs"
      then have "Invoked j args t \<in> set (fst (chain ss (Suc k0) (t0 + d)))" by (simp add: c)
      from Cons.IH [OF this] show ?thesis by simp
    qed
  qed
qed

lemma chain_settled_before:
  assumes "fst (chain steps k0 t0) = pre @ Invoked (Suc k) args t # post" and "k0 \<le> k"
  shows "\<exists>st t'. Settled k st t' \<in> set pre \<and> st \<noteq> Pending \<and> t' \<le> t"
  using assms
proof (induction steps arbitrary: k0 t0 pre)
  case Nil
  then show ?case by simp
next
  case (Cons s ss)
  obtain d st where s: "s [] = (d, st)" by (cases "s []")
  have ne: "Invoked (Suc k) args t \<noteq> Invoked k0 a b" for a b
    using Cons.prems(2) by simp
  show ?case
  proof (cases st)
    case Pending
    with Cons.prems(1) s ne show ?thesis
      by (auto simp: Cons_eq_append_conv)
  next
    case (Rejected e)
    with Cons.prems(1) s ne show ?thesis
      by (auto simp: Cons_eq_append_conv)
  next
    case (Fulfilled v)
    obtain evs res where c: "chain ss (Suc k0) (t0 + d) = (evs, res)"
      by (cases "chain ss (Suc k0) (t0 + d)")
    from Cons.prems(1) s Fulfilled c
    have eq: "Invoked k0 [] t0 # Settled k0 st (t0 + d) # Logged k0 v # evs
            = pre @ Invoked (Suc k) args t # post"
      by simp
    then obtain pre' where pre: "pre = Invoked k0 [] t0 # Settled k0 st (t0 + d) # Logged k0 v # pre'"
      and evs: "evs = pre' @ Invoked (Suc k) args t # post"
      using ne by (auto simp: Cons_eq_append_conv)
    show ?thesis
    proof (cases "k = k0")
      case True
      have "Invoked (Suc k) args t \<in> set (fst (chain ss (Suc k0) (t0 + d)))"
        by (simp add: c evs)
      then have "t0 + d \<le> t"
        using chain_invoked by blast
      with True pre Fulfilled show ?thesis by auto
    next
      case False
      with Cons.prems(2) have "Suc k0 \<le> k" by simp
      from Cons.IH [of "Suc k0" "t0 + d" pre'] c evs this
      obtain st' t' where "Settled k st' t' \<in> set pre'" "st' \<noteq> Pending" "t' \<le> t"
        by auto
      with pre show ?thesis by auto
    qed
  qed
qed

lemma logged_simps:
  "logged [] = []"
  "logged (Invoked k args t # evs) = logged evs"
  "logged (Settled k st t # evs) = logged evs"
  "logged (Logged k v # evs) = v # logged evs"
  by (simp_all add: logged_def)

lemma logged_chain_delayed:
  "logged (fst (chain (map (\<lambda>(ms, v). delayed ms v) dvs) k0 t0)) = map snd dvs"
proof (induction dvs arbitrary: k0 t0)
  case Nil
  show ?case by (simp add: logged_simps)
next
  case (Cons dv dvs)
  obtain ms v where dv: "dv = (ms, v)" by (cases dv)
  let ?ss = "map (\<lambda>(ms, v). delayed ms v) dvs"
  obtain evs res where c: "chain ?ss (Suc k0) (t0 + ms) = (evs, res)"
    by (cases "chain ?ss (Suc k0) (t0 + ms)")
  have "logged (fst (chain ?ss (Suc k0) (t0 + ms))) = map snd dvs"
    by (rule Cons.IH)
  then have l: "logged evs = map snd dvs"
    by (simp add: c)
  have "chain (map (\<lambda>(ms, v). delayed ms v) (dv # dvs)) k0 t0
      = ([Invoked k0 [] t0, Settled k0 (Fulfilled v) (t0 + ms), Logged k0 v] @ evs, res)"
    unfolding dv list.map prod.case chain.simps delayed_eq pstate.case c by simp
  then show ?case
    by (simp add: logged_simps l dv)
qed

text \<open>
  C2. In a run of the chain over any list of steps, a call of step \<open>k + 1\<close> is preceded
  in the run by the settlement of the promise of step \<open>k\<close>, which happened no later than
  the call. For steps that return "First", "Second", "Third" the console shows exactly
  First, Second, Third, whatever the three delays; \<open>runSequential\<close> is that chain with
  the delays 1000, 2000 and 1500 ms.
\<close>
theorem runSequential_in_order:
  "(fst (chain steps 0 0) = pre @ Invoked (Suc k) args t # post \<longrightarrow>
      (\<exists>st t'. Settled k st t' \<in> set pre \<and> st \<noteq> Pending \<and> t' \<le> t))
   \<and> logged (fst (chain [delayed d1 (Str ''First''), delayed d2 (Str ''Second''),
                         delayed d3 (Str ''Third'')] 0 0))
       = [Str ''First'', Str ''Second'', Str ''Third'']
   \<and> runSequential = chain [first, second, third] 0 0
   \<and> logged (fst runSequential) = [Str ''First'', Str ''Second'', Str ''Third'']"
proof -
  have a: "logged (fst (chain [delayed d1 (Str ''First''), delayed d2 (Str ''Second''),
                         delayed d3 (Str ''Third'')] 0 0))
       = [Str ''First'', Str ''Second'', Str ''Third'']" for d1 d2 d3
    using logged_chain_delayed [of "[(d1, Str ''First''), (d2, Str ''Second''), (d3, Str ''Third'')]" 0 0]
    by simp
  have b: "logged (fst runSequential) = [Str ''First'', Str ''Second'', Str ''Third'']"
    unfolding runSequential_chain first_second_third by (rule a)
  show ?thesis
    using a b runSequential_chain chain_settled_before [of steps 0 0 pre k args t post]
    by simp
qed

theorem runSequential_in_order_witness:
  "fst (chain [first, second, third] 0 0)
     = [Invoked 0 [] 0, Settled 0 (Fulfilled (Str ''First'')) 1000, Logged 0 (Str ''First'')]
       @ Invoked (Suc 0) [] 1000
       # [Settled 1 (Fulfilled (Str ''Second'')) 3000, Logged 1 (Str ''Second''),
          Invoked 2 [] 3000, Settled 2 (Fulfilled (Str ''Third'')) 4500, Logged 2 (Str ''Third'')]
   \<and> (\<exists>st t'. Settled 0 st t'
          \<in> set [Invoked 0 [] 0, Settled 0 (Fulfilled (Str ''First'')) 1000, Logged 0 (Str ''First'')]
        \<and> st \<noteq> Pending \<and> t' \<le> 1000)"
proof -
  have tr: "fst (chain [first, second, third] 0 0)
     = [Invoked 0 [] 0, Settled 0 (Fulfilled (Str ''First'')) 1000, Logged 0 (Str ''First'')]
       @ Invoked (Suc 0) [] 1000
       # [Settled 1 (Fulfilled (Str ''Second'')) 3000, Logged 1 (Str ''Second''),
          Invoked 2 [] 3000, Settled 2 (Fulfilled (Str ''Third'')) 4500, Logged 2 (Str ''Third'')]"
    by (simp add: first_second_third delayed_eq)
  show ?thesis
    using runSequential_in_order [of "[first, second, third]"
        "[Invoked 0 [] 0, Settled 0 (Fulfilled (Str ''First'')) 1000, Logged 0 (Str ''First'')]"
        0 "[]" 1000
        "[Settled 1 (Fulfilled (Str ''Second'')) 3000, Logged 1 (Str ''Second''),
          Invoked 2 [] 3000, Settled 2 (Fulfilled (Str ''Third'')) 4500, Logged 2 (Str ''Third'')]"]
      tr
    by blast
qed


lemma chain_rejected:
  assumes "Settled k (Rejected e) t \<in> set (fst (chain steps k0 t0))"
  shows "snd (chain steps k0 t0) = Rejected e
       \<and> (\<forall>ev \<in> set (fst (chain steps k0 t0)). step_of ev \<le> k)"
  using assms
proof (induction steps arbitrary: k0 t0)
  case Nil
  then show ?case by simp
next
  case (Cons s ss)
  obtain d st where s: "s [] = (d, st)" by (cases "s []")
  show ?case
  proof (cases st)
    case Pending
    with Cons.prems s show ?thesis by auto
  next
    case (Rejected e')
    with Cons.prems s show ?thesis by auto
  next
    case (Fulfilled v)
    obtain evs res where c: "chain ss (Suc k0) (t0 + d) = (evs, res)"
      by (cases "chain ss (Suc k0) (t0 + d)")
    from Cons.prems s Fulfilled c
    have mem: "Settled k (Rejected e) t \<in> set (fst (chain ss (Suc k0) (t0 + d)))"
      by auto
    from chain_step_ge [OF this] have k: "Suc k0 \<le> k" by simp
    from Cons.IH [OF mem] c
    have "res = Rejected e" and "\<forall>ev \<in> set evs. step_of ev \<le> k"
      by simp_all
    with s Fulfilled c k show ?thesis by auto
  qed
qed

text \<open>
  C4. In a run of the chain over any list of steps, when the promise of step \<open>k\<close> is
  rejected with \<open>e\<close>, the promise of the chain is rejected with \<open>e\<close>, and no step after
  \<open>k\<close> is called.
\<close>
theorem runSequential_stops_at_rejection:
  assumes "Settled k (Rejected e) t \<in> set (fst (chain steps 0 0))"
  shows "snd (chain steps 0 0) = Rejected e
       \<and> (\<forall>j args t'. Invoked j args t' \<in> set (fst (chain steps 0 0)) \<longrightarrow> j \<le> k)"
proof -
  from chain_rejected [OF assms]
  have r: "snd (chain steps 0 0) = Rejected e"
    and le: "\<forall>ev \<in> set (fst (chain steps 0 0)). step_of ev \<le> k"
    by simp_all
  have "j \<le> k" if "Invoked j args t' \<in> set (fst (chain steps 0 0))" for j args t'
    using le that by fastforce
  with r show ?thesis by blast
qed

lemma failing_eq: "failing ms e args = (ms, Rejected e)"
  by (simp add: failing_def await_def sleep_def)

theorem runSequential_stops_at_rejection_witness:
  "Settled 1 (Rejected (Str ''boom'')) 3000
     \<in> set (fst (chain [first, failing 2000 (Str ''boom''), third] 0 0))
   \<and> snd (chain [first, failing 2000 (Str ''boom''), third] 0 0) = Rejected (Str ''boom'')
   \<and> fst (chain [first, failing 2000 (Str ''boom''), third] 0 0)
     = [Invoked 0 [] 0, Settled 0 (Fulfilled (Str ''First'')) 1000, Logged 0 (Str ''First''),
        Invoked 1 [] 1000, Settled 1 (Rejected (Str ''boom'')) 3000]"
proof -
  have c: "fst (chain [first, failing 2000 (Str ''boom''), third] 0 0)
     = [Invoked 0 [] 0, Settled 0 (Fulfilled (Str ''First'')) 1000, Logged 0 (Str ''First''),
        Invoked 1 [] 1000, Settled 1 (Rejected (Str ''boom'')) 3000]"
    by (simp add: first_second_third delayed_eq failing_eq)
  then have m: "Settled 1 (Rejected (Str ''boom'')) 3000
        \<in> set (fst (chain [first, failing 2000 (Str ''boom''), third] 0 0))"
    by simp
  from runSequential_stops_at_rejection [OF m] m c show ?thesis
    by blast
qed

lemma chain_value_independent:
  assumes "length steps' = length steps" and "i < length steps"
    and "\<forall>j < length steps. j \<noteq> i \<longrightarrow> steps' ! j = steps ! j"
    and "(steps ! i) [] = (d, Fulfilled v)" and "(steps' ! i) [] = (d, Fulfilled v')"
  shows "filter (\<lambda>ev. step_of ev \<noteq> k0 + i) (fst (chain steps' k0 t0))
           = filter (\<lambda>ev. step_of ev \<noteq> k0 + i) (fst (chain steps k0 t0))
       \<and> filter is_invoked (fst (chain steps' k0 t0)) = filter is_invoked (fst (chain steps k0 t0))
       \<and> snd (chain steps' k0 t0) = snd (chain steps k0 t0)"
  using assms
proof (induction steps arbitrary: steps' i k0 t0)
  case Nil
  then show ?case by simp
next
  case (Cons s ss)
  from Cons.prems(1) obtain s' ss' where steps': "steps' = s' # ss'" and len: "length ss' = length ss"
    by (cases steps') auto
  show ?case
  proof (cases i)
    case 0
    have "ss' ! j = ss ! j" if "j < length ss" for j
      using Cons.prems(3) [rule_format, of "Suc j"] that by (simp add: steps' 0)
    with len have ss: "ss' = ss"
      by (intro nth_equalityI) simp_all
    obtain evs res where c: "chain ss (Suc k0) (t0 + d) = (evs, res)"
      by (cases "chain ss (Suc k0) (t0 + d)")
    have ge: "\<forall>ev \<in> set evs. step_of ev \<noteq> k0"
      using chain_step_ge [of _ ss "Suc k0" "t0 + d"] c by fastforce
    from Cons.prems(4,5) have "s [] = (d, Fulfilled v)" "s' [] = (d, Fulfilled v')"
      by (simp_all add: steps' 0)
    then show ?thesis
      using c ge by (simp add: steps' ss 0)
  next
    case (Suc i')
    have s: "s' = s"
      using Cons.prems(3) [rule_format, of 0] by (simp add: steps' Suc)
    obtain d0 st where s0: "s [] = (d0, st)" by (cases "s []")
    have IH: "filter (\<lambda>ev. step_of ev \<noteq> Suc k0 + i') (fst (chain ss' (Suc k0) (t0 + d0)))
           = filter (\<lambda>ev. step_of ev \<noteq> Suc k0 + i') (fst (chain ss (Suc k0) (t0 + d0)))
       \<and> filter is_invoked (fst (chain ss' (Suc k0) (t0 + d0)))
           = filter is_invoked (fst (chain ss (Suc k0) (t0 + d0)))
       \<and> snd (chain ss' (Suc k0) (t0 + d0)) = snd (chain ss (Suc k0) (t0 + d0))"
    proof (rule Cons.IH)
      show "length ss' = length ss" by (rule len)
      show "i' < length ss" using Cons.prems(2) by (simp add: Suc)
      show "\<forall>j < length ss. j \<noteq> i' \<longrightarrow> ss' ! j = ss ! j"
        using Cons.prems(3) by (auto simp: steps' Suc dest: spec [of _ "Suc _"])
      show "(ss ! i') [] = (d, Fulfilled v)" using Cons.prems(4) by (simp add: Suc)
      show "(ss' ! i') [] = (d, Fulfilled v')" using Cons.prems(5) by (simp add: steps' Suc)
    qed
    show ?thesis
    proof (cases st)
      case Pending
      with s0 show ?thesis by (simp add: steps' s Suc)
    next
      case (Rejected e)
      with s0 show ?thesis by (simp add: steps' s Suc)
    next
      case (Fulfilled w)
      with s0 IH show ?thesis
        by (auto simp: steps' s Suc split: prod.split)
    qed
  qed
qed


text \<open>
  C8. The chain calls every step without arguments, and the value that step \<open>i\<close>
  fulfils with reaches no other step: replace step \<open>i\<close> by a step that fulfils with
  another value after the same delay, and the calls (with their arguments and times),
  the settlements and the logs of all other steps are the same, as is the outcome of
  the chain.
\<close>
theorem runSequential_values_not_threaded:
  assumes "length steps' = length steps" and "i < length steps"
    and "\<forall>j < length steps. j \<noteq> i \<longrightarrow> steps' ! j = steps ! j"
    and "(steps ! i) [] = (d, Fulfilled v)" and "(steps' ! i) [] = (d, Fulfilled v')"
  shows "filter (\<lambda>ev. step_of ev \<noteq> i) (fst (chain steps' 0 0))
           = filter (\<lambda>ev. step_of ev \<noteq> i) (fst (chain steps 0 0))
       \<and> filter is_invoked (fst (chain steps' 0 0)) = filter is_invoked (fst (chain steps 0 0))
       \<and> snd (chain steps' 0 0) = snd (chain steps 0 0)
       \<and> (\<forall>j args t. Invoked j args t \<in> set (fst (chain steps 0 0)) \<longrightarrow> args = [])"
  using chain_value_independent [OF assms, of 0 0] chain_invoked [of _ _ _ steps 0 0]
  by auto

theorem runSequential_values_not_threaded_witness:
  "filter (\<lambda>ev. step_of ev \<noteq> 0) (fst (chain [delayed 1000 (Num 42), second, third] 0 0))
     = filter (\<lambda>ev. step_of ev \<noteq> 0) (fst runSequential)
   \<and> filter is_invoked (fst (chain [delayed 1000 (Num 42), second, third] 0 0))
     = [Invoked 0 [] 0, Invoked 1 [] 1000, Invoked 2 [] 3000]
   \<and> filter is_invoked (fst runSequential) = [Invoked 0 [] 0, Invoked 1 [] 1000, Invoked 2 [] 3000]"
proof -
  let ?steps = "[first, second, third]" and ?steps' = "[delayed 1000 (Num 42), second, third]"
  have a: "length ?steps' = length ?steps" and b: "0 < length ?steps" by simp_all
  have c: "\<forall>j < length ?steps. j \<noteq> 0 \<longrightarrow> ?steps' ! j = ?steps ! j"
    by (simp add: less_Suc_eq)
  have d: "(?steps ! 0) [] = (1000, Fulfilled (Str ''First''))"
    and e: "(?steps' ! 0) [] = (1000, Fulfilled (Num 42))"
    by (simp_all add: first_second_third delayed_eq)
  have f: "filter is_invoked (fst (chain ?steps 0 0)) = [Invoked 0 [] 0, Invoked 1 [] 1000, Invoked 2 [] 3000]"
    by (simp add: first_second_third delayed_eq)
  from runSequential_values_not_threaded [OF a b c d e] f show ?thesis
    by (simp add: runSequential_chain)
qed


section \<open>Properties of the scripts\<close>

lemma students_short: "\<forall>name \<in> set students. length name \<le> 5"
  by (simp add: students_def)

lemma MyPromise_callback_rejects:
  assumes "0 \<le> rnd" and "rnd < 1"
  shows "MyPromise_callback rnd Pending = Inr (Rejected (Str ''failure''))"
proof -
  define i where "i = \<lfloor>rnd * 4\<rfloor>"
  have lo: "0 \<le> i" using assms(1) by (simp add: i_def)
  have "rnd * 4 < 4" using assms(2) by simp
  then have hi: "i < 4" unfolding i_def by (simp add: floor_less_iff)
  from lo hi have "i = 0 \<or> i = 1 \<or> i = 2 \<or> i = 3" by arith
  then show ?thesis
    by (auto simp: MyPromise_callback_def students_def reject_def i_def [symmetric])
qed

text \<open>
  C9. Whatever \<open>Math.random()\<close> returns (a number in \<open>[0, 1)\<close>), the timer callback of
  \<open>MyPromise\<close> rejects with \<open>"failure"\<close>: every name of \<open>students\<close> has at most 5
  characters, so the branch that resolves with \<open>"success"\<close> is never taken and the
  promise is never fulfilled; it is pending before 5000 ms and rejected from then on.
\<close>

theorem MyPromise_always_rejects:
  assumes "0 \<le> rnd" and "rnd < 1"
  shows "MyPromise_callback rnd Pending = Inr (Rejected (Str ''failure''))
       \<and> MyPromise rnd t = (if t < 5000 then Pending else Rejected (Str ''failure''))
       \<and> (\<forall>v. MyPromise rnd t \<noteq> Fulfilled v)
       \<and> (\<forall>name \<in> set students. length name \<le> 5)"
  using MyPromise_callback_rejects [OF assms] students_short
  by (simp add: MyPromise_def)

theorem MyPromise_always_rejects_witness:
  "(0::real) \<le> 1 / 2 \<and> (1::real) / 2 < 1
   \<and> MyPromise_callback (1 / 2) Pending = Inr (Rejected (Str ''failure''))
   \<and> MyPromise (1 / 2) 5000 = Rejected (Str ''failure'')
   \<and> MyPromise (1 / 2) 4999 = Pending"
proof -
  have a: "(0::real) \<le> 1 / 2" and b: "(1::real) / 2 < 1" by simp_all
  show ?thesis
    using MyPromise_always_rejects [OF a b, of 5000]
          MyPromise_always_rejects [OF a b, of 4999]
    by simp
qed

text \<open>
  C10. \<open>add100\<close> leaves \<open>points\<close> unchanged, whatever its value before the call and
  whether or not the display element exists: the sum \<open>points + 100\<close> is computed and
  discarded, and \<open>updatePointsDisplay\<close> only writes to the document. The same holds in
  the second copy of the script; \<open>addPoint\<close>, by contrast, adds 1.
\<close>

theorem add100_points_unchanged:
  "points (snd (add100 s)) = points s \<and> points (snd (add100' s)) = points s
   \<and> points (snd (addPoint s)) = points s + 1"
  by (simp add: add100_def add100'_def addPoint_def updatePointsDisplay_def
        updatePointsDisplay'_def write_points_def split: option.split)

end
